theory Spec2Isabelle
  imports Complex_Main
begin

section \<open>JavaScript values used by the data layer\<close>

text \<open>
  A JavaScript string is a sequence of UTF-16 code units; a code unit is modelled by its
  number. \<open>lit\<close> turns a literal of the theory into such a string.
\<close>

type_synonym jsstr = "nat list"

definition lit :: "string \<Rightarrow> jsstr" where
  "lit s = map of_char s"

text \<open>
  The cells of a row hold strings; \<open>null\<close> and \<open>undefined\<close> are the two other values the
  code tests for. Reading a row by a name can also give what every plain object
  inherits from \<open>Object.prototype\<close>: a built-in function, kept by its name, or
  \<open>Object.prototype\<close> itself.
\<close>

datatype jsval = JUndefined | JNull | JStr jsstr | JNative jsstr | JObjectPrototype

text \<open>
  A row is a record of the CSV loader, a plain object used as a dictionary from column
  names to cells. It is modelled by the list of its own properties, in the order in
  which \<open>Object.keys\<close> lists them.
\<close>

type_synonym row = "(jsstr \<times> jsval) list"

definition Object_keys :: "row \<Rightarrow> jsstr list" where
  "Object_keys r = map fst r"

text \<open>
  The members of \<open>Object.prototype\<close>: \<open>constructor\<close> is the function \<open>Object\<close>,
  \<open>__proto__\<close> is an accessor that gives the prototype of the row, \<open>Object.prototype\<close>,
  and the others are functions that bear the name of the member.
\<close>

definition Object_prototype_functions :: "string list" where
  "Object_prototype_functions =
     [''__defineGetter__'', ''__defineSetter__'', ''hasOwnProperty'', ''__lookupGetter__'',
      ''__lookupSetter__'', ''isPrototypeOf'', ''propertyIsEnumerable'', ''toString'',
      ''valueOf'', ''toLocaleString'']"

definition inherited :: "jsstr \<Rightarrow> jsval" where
  "inherited k =
     (if k = lit ''constructor'' then JNative (lit ''Object'')
      else if k = lit ''__proto__'' then JObjectPrototype
      else if k \<in> set (map lit Object_prototype_functions) then JNative k
      else JUndefined)"

text \<open>
  \<open>r[k]\<close>: the own property of the row when there is one, the member inherited from
  \<open>Object.prototype\<close> otherwise, \<open>undefined\<close> when there is none.
\<close>

definition get :: "row \<Rightarrow> jsstr \<Rightarrow> jsval" where
  "get r k = (case map_of r k of None \<Rightarrow> inherited k | Some v \<Rightarrow> v)"

text \<open>
  \<open>String(v)\<close>. A built-in function prints as V8 prints it; \<open>Object.prototype\<close> prints
  as every plain object.
\<close>

fun String_js :: "jsval \<Rightarrow> jsstr" where
  "String_js JUndefined = lit ''undefined''"
| "String_js JNull = lit ''null''"
| "String_js (JStr s) = s"
| "String_js (JNative name) = lit ''function '' @ name @ lit ''() { [native code] }''"
| "String_js JObjectPrototype = lit ''[object Object]''"

text \<open>
  White space and line terminators of ECMAScript: TAB, LF, VT, FF, CR, SP, NBSP, the
  other space separators of Unicode, LS, PS and the byte order mark.
\<close>

definition is_ws :: "nat \<Rightarrow> bool" where
  "is_ws c \<longleftrightarrow>
     (9 \<le> c \<and> c \<le> 13) \<or> c = 32 \<or> c = 160 \<or> c = 5760 \<or> (8192 \<le> c \<and> c \<le> 8202) \<or>
     c = 8232 \<or> c = 8233 \<or> c = 8239 \<or> c = 8287 \<or> c = 12288 \<or> c = 65279"

text \<open>\<open>s.trim()\<close>.\<close>

definition trim :: "jsstr \<Rightarrow> jsstr" where
  "trim s = rev (dropWhile is_ws (rev (dropWhile is_ws s)))"

section \<open>Numbers\<close>

text \<open>
  A JavaScript number is an IEEE 754 double: not-a-number, an infinity, or a finite
  value, which is kept as the rational it denotes. The two zeros are one value here:
  the code compares and adds numbers and divides by a length only, and none of these
  tells the zeros apart.
\<close>

datatype number = NaN | PosInf | NegInf | Fin rat

definition isNaN :: "number \<Rightarrow> bool" where
  "isNaN v \<longleftrightarrow> v = NaN"

text \<open>Rounding to the nearest integer, a tie going to the even neighbour.\<close>

definition roundTiesToEven :: "rat \<Rightarrow> int" where
  "roundTiesToEven x =
     (let f = \<lfloor>x\<rfloor>; d = x - of_int f
      in if d < 1 / 2 then f
         else if 1 / 2 < d then f + 1
         else if even f then f else f + 1)"

text \<open>The number of binary digits of a positive integer.\<close>

function bit_length :: "int \<Rightarrow> nat" where
  "bit_length n = (if n \<le> 0 then 0 else Suc (bit_length (n div 2)))"
  by pat_completeness auto
termination
  by (relation "measure nat") auto

text \<open>The exponent \<open>e\<close> with \<open>2 ^ e \<le> \<bar>x\<bar> < 2 ^ (e + 1)\<close>, for \<open>x \<noteq> 0\<close>.\<close>

definition binade :: "rat \<Rightarrow> int" where
  "binade x =
     (let p = fst (quotient_of \<bar>x\<bar>); q = snd (quotient_of \<bar>x\<bar>);
          d = int (bit_length p) - int (bit_length q)
      in if 2 powi d \<le> \<bar>x\<bar> then d else d - 1)"

text \<open>
  The spacing of the doubles around a rational: 53 significant bits, and the exponent
  never below \<open>-1022\<close>, so that the spacing stays \<open>2 ^ -1074\<close> near zero.
\<close>

definition ulp :: "rat \<Rightarrow> rat" where
  "ulp x = 2 powi (max (binade x) (- 1022) - 52)"

text \<open>The magnitude rounded to a multiple of the spacing.\<close>

definition round_abs :: "rat \<Rightarrow> rat" where
  "round_abs x = of_int (roundTiesToEven (\<bar>x\<bar> / ulp x)) * ulp x"

text \<open>
  The double nearest to a rational; a magnitude that rounds to \<open>2 ^ 1024\<close> or more
  overflows to an infinity.
\<close>

definition to_double :: "rat \<Rightarrow> number" where
  "to_double x =
     (if x = 0 then Fin 0
      else let y = round_abs x
           in if 2 ^ 1024 \<le> y then (if x < 0 then NegInf else PosInf)
              else Fin (if x < 0 then - y else y))"

text \<open>\<open>a + b\<close> on numbers.\<close>

fun js_add :: "number \<Rightarrow> number \<Rightarrow> number" where
  "js_add NaN _ = NaN"
| "js_add _ NaN = NaN"
| "js_add PosInf NegInf = NaN"
| "js_add NegInf PosInf = NaN"
| "js_add PosInf _ = PosInf"
| "js_add _ PosInf = PosInf"
| "js_add NegInf _ = NegInf"
| "js_add _ NegInf = NegInf"
| "js_add (Fin a) (Fin b) = to_double (a + b)"

text \<open>\<open>x / n\<close> where \<open>n\<close> is the length of an array (an integer from 0 to \<open>2 ^ 32 - 1\<close>).\<close>

fun js_div_length :: "number \<Rightarrow> nat \<Rightarrow> number" where
  "js_div_length NaN n = NaN"
| "js_div_length PosInf n = PosInf"
| "js_div_length NegInf n = NegInf"
| "js_div_length (Fin a) n =
     (if n = 0 then (if a = 0 then NaN else if 0 < a then PosInf else NegInf)
      else to_double (a / of_int (int n)))"

text \<open>\<open>a < b\<close> and \<open>a <= b\<close> on numbers: false as soon as one side is not a number.\<close>

fun js_lt :: "number \<Rightarrow> number \<Rightarrow> bool" where
  "js_lt NaN _ = False"
| "js_lt _ NaN = False"
| "js_lt (Fin a) (Fin b) = (a < b)"
| "js_lt NegInf NegInf = False"
| "js_lt NegInf _ = True"
| "js_lt PosInf _ = False"
| "js_lt (Fin a) PosInf = True"
| "js_lt (Fin a) NegInf = False"

fun js_le :: "number \<Rightarrow> number \<Rightarrow> bool" where
  "js_le NaN _ = False"
| "js_le _ NaN = False"
| "js_le a b = (a = b \<or> js_lt a b)"

text \<open>
  \<open>Math.min(...vs)\<close> and \<open>Math.max(...vs)\<close>: the scan starts from an infinity and a
  \<open>NaN\<close> argument makes the result \<open>NaN\<close>. The bound an engine puts on the number of
  arguments of a call is not modelled.
\<close>

definition Math_min :: "number list \<Rightarrow> number" where
  "Math_min vs =
     foldl (\<lambda>lowest v. if lowest = NaN \<or> v = NaN then NaN
                        else if js_lt v lowest then v else lowest) PosInf vs"

definition Math_max :: "number list \<Rightarrow> number" where
  "Math_max vs =
     foldl (\<lambda>highest v. if highest = NaN \<or> v = NaN then NaN
                         else if js_lt highest v then v else highest) NegInf vs"

subsection \<open>Converting a string to a number\<close>

text \<open>
  \<open>Number(s)\<close> on a string follows the grammar \<open>StringNumericLiteral\<close>: white space
  around the literal is dropped, the empty string is 0, a literal is a binary, octal or
  hexadecimal integer without sign, or a signed decimal literal or \<open>Infinity\<close>; anything
  else is \<open>NaN\<close>. The value is rounded to the nearest double, also for a literal of
  more than twenty digits, as V8 does.
\<close>

definition digit_val :: "nat \<Rightarrow> nat option" where
  "digit_val c =
     (if 48 \<le> c \<and> c \<le> 57 then Some (c - 48)
      else if 97 \<le> c \<and> c \<le> 102 then Some (c - 87)
      else if 65 \<le> c \<and> c \<le> 70 then Some (c - 55)
      else None)"

definition is_digit :: "nat \<Rightarrow> nat \<Rightarrow> bool" where
  "is_digit base c = (case digit_val c of None \<Rightarrow> False | Some d \<Rightarrow> d < base)"

definition digits_value :: "nat \<Rightarrow> jsstr \<Rightarrow> int" where
  "digits_value base ds =
     foldl (\<lambda>a c. a * int base + (case digit_val c of None \<Rightarrow> 0 | Some d \<Rightarrow> int d)) 0 ds"

definition digits :: "nat \<Rightarrow> jsstr \<Rightarrow> int option" where
  "digits base ds =
     (if ds \<noteq> [] \<and> list_all (is_digit base) ds then Some (digits_value base ds) else None)"

definition non_decimal :: "jsstr \<Rightarrow> int option" where
  "non_decimal t =
     (case t of
        c0 # c1 # ds \<Rightarrow>
          if c0 \<noteq> 48 then None
          else if c1 = 120 \<or> c1 = 88 then digits 16 ds
          else if c1 = 111 \<or> c1 = 79 then digits 8 ds
          else if c1 = 98 \<or> c1 = 66 then digits 2 ds
          else None
      | _ \<Rightarrow> None)"

definition signed_integer :: "jsstr \<Rightarrow> int option" where
  "signed_integer s =
     (case s of
        [] \<Rightarrow> None
      | c # r \<Rightarrow>
          if c = 43 then digits 10 r
          else if c = 45 then map_option uminus (digits 10 r)
          else digits 10 s)"

definition exponent_part :: "jsstr \<Rightarrow> int option" where
  "exponent_part s =
     (case s of
        [] \<Rightarrow> Some 0
      | c # r \<Rightarrow> if c = 101 \<or> c = 69 then signed_integer r else None)"

definition str_decimal :: "jsstr \<Rightarrow> rat option" where
  "str_decimal u =
     (let ip = takeWhile (is_digit 10) u;
          r1 = dropWhile (is_digit 10) u;
          fp = (case r1 of [] \<Rightarrow> [] | c # r \<Rightarrow> if c = 46 then takeWhile (is_digit 10) r else []);
          r2 = (case r1 of [] \<Rightarrow> [] | c # r \<Rightarrow> if c = 46 then dropWhile (is_digit 10) r else r1)
      in if ip = [] \<and> fp = [] then None
         else case exponent_part r2 of
                None \<Rightarrow> None
              | Some ex \<Rightarrow>
                  Some (of_int (digits_value 10 (ip @ fp)) * 10 powi (ex - int (length fp))))"

definition str_unsigned :: "jsstr \<Rightarrow> number" where
  "str_unsigned u =
     (if u = lit ''Infinity'' then PosInf
      else case str_decimal u of None \<Rightarrow> NaN | Some x \<Rightarrow> to_double x)"

fun js_neg :: "number \<Rightarrow> number" where
  "js_neg NaN = NaN"
| "js_neg PosInf = NegInf"
| "js_neg NegInf = PosInf"
| "js_neg (Fin a) = Fin (- a)"

definition StringToNumber :: "jsstr \<Rightarrow> number" where
  "StringToNumber s =
     (let t = trim s
      in case t of
           [] \<Rightarrow> Fin 0
         | c # u \<Rightarrow>
             (case non_decimal t of
                Some n \<Rightarrow> to_double (of_int n)
              | None \<Rightarrow>
                  if c = 43 then str_unsigned u
                  else if c = 45 then js_neg (str_unsigned u)
                  else str_unsigned t))"

text \<open>\<open>Number(v)\<close>. An object is converted through its string form.\<close>

fun Number :: "jsval \<Rightarrow> number" where
  "Number JUndefined = NaN"
| "Number JNull = Fin 0"
| "Number (JStr s) = StringToNumber s"
| "Number (JNative name) = StringToNumber (String_js (JNative name))"
| "Number JObjectPrototype = StringToNumber (String_js JObjectPrototype)"

section \<open>The summary of the datasets\<close>

text \<open>
  \<^verbatim>\<open>
  function numericColumns(rows) {
    if (!rows?.length) return [];
    const cols = Object.keys(rows[0]);
    return cols.filter(col =>
      rows.every(r => r[col] === '' || !isNaN(Number(r[col])))
    );
  }
  \<close>
\<close>

definition numericColumns :: "row list \<Rightarrow> jsstr list" where
  "numericColumns rows =
     (case rows of
        [] \<Rightarrow> []
      | r0 # _ \<Rightarrow>
          filter (\<lambda>col. list_all (\<lambda>r. get r col = JStr [] \<or> \<not> isNaN (Number (get r col))) rows)
            (Object_keys r0))"

text \<open>The statistics object of one column.\<close>

record col_stats =
  count :: nat
  mean :: number
  min_v :: number
  max_v :: number

text \<open>
  Assigning a property of an object: the value of an existing key is replaced in
  place, a new key goes last. (JavaScript lists keys that look like array indices
  before the others; no property below depends on the order of the keys of \<open>stats\<close>
  or of the summary.)
\<close>

fun obj_set :: "(jsstr \<times> 'a) list \<Rightarrow> jsstr \<Rightarrow> 'a \<Rightarrow> (jsstr \<times> 'a) list" where
  "obj_set [] k v = [(k, v)]"
| "obj_set ((k', v') # kvs) k v =
     (if k' = k then (k, v) # kvs else (k', v') # obj_set kvs k v)"

text \<open>
  \<^verbatim>\<open>
  for (const col of numCols) {
    const values = rows.map(r => Number(r[col])).filter(v => !isNaN(v));
    if (!values.length) continue;
    const sum = values.reduce((a, b) => a + b, 0);
    stats[col] = { count: values.length, mean: sum / values.length,
                   min: Math.min(...values), max: Math.max(...values) };
  }
  \<close>
\<close>

definition column_values :: "row list \<Rightarrow> jsstr \<Rightarrow> number list" where
  "column_values rows col = filter (\<lambda>v. \<not> isNaN v) (map (\<lambda>r. Number (get r col)) rows)"

definition stats_of_values :: "number list \<Rightarrow> col_stats" where
  "stats_of_values values =
     (let sum = foldl js_add (Fin 0) values
      in \<lparr>count = length values,
          mean = js_div_length sum (length values),
          min_v = Math_min values,
          max_v = Math_max values\<rparr>)"

fun stats_loop ::
  "row list \<Rightarrow> jsstr list \<Rightarrow> (jsstr \<times> col_stats) list \<Rightarrow> (jsstr \<times> col_stats) list" where
  "stats_loop rows [] stats = stats"
| "stats_loop rows (col # cols) stats =
     (let values = column_values rows col
      in if values = [] then stats_loop rows cols stats
         else stats_loop rows cols (obj_set stats col (stats_of_values values)))"

text \<open>
  The entry of one dataset in the summary: \<open>{rows: 0}\<close> alone, or
  \<open>{rows, numeric_columns, stats}\<close>. \<open>summarize_table\<close> is the body of the loop of
  \<open>getDatasetsSummary\<close> for one dataset.
\<close>

datatype summary_entry =
  Rows_only nat
| Rows_columns_stats nat "jsstr list" "(jsstr \<times> col_stats) list"

definition summarize_table :: "row list \<Rightarrow> summary_entry" where
  "summarize_table rows =
     (if rows = [] then Rows_only 0
      else let numCols = numericColumns rows;
               stats = stats_loop rows numCols []
           in Rows_columns_stats (length rows) numCols stats)"

text \<open>
  \<open>getDatasetsSummary(store)\<close>: the loop over \<open>Object.entries(store)\<close>, each dataset
  assigned to its key of the summary.
\<close>

type_synonym store = "(jsstr \<times> row list) list"

fun summary_loop ::
  "store \<Rightarrow> (jsstr \<times> summary_entry) list \<Rightarrow> (jsstr \<times> summary_entry) list" where
  "summary_loop [] summary = summary"
| "summary_loop ((key, rows) # entries) summary =
     summary_loop entries (obj_set summary key (summarize_table rows))"

definition getDatasetsSummary :: "store \<Rightarrow> (jsstr \<times> summary_entry) list" where
  "getDatasetsSummary store = summary_loop store []"

section \<open>Grouping\<close>

text \<open>
  \<^verbatim>\<open>
  const groups = new Map();
  for (const row of data) {
    const raw = row?.[by];
    const key =
      raw === undefined || raw === null || String(raw).trim() === ''
        ? 'Unknown' : String(raw);
    groups.set(key, (groups.get(key) || 0) + 1);
  }
  const out = Array.from(groups.entries()).map(([k, count]) => ({ key: k, count }));
  \<close>
  The handler of \<open>/group\<close> runs this loop on the dataset it selected, once it has
  checked that the query parameter \<open>by\<close> is there; the parameter is called \<open>field\<close>
  below. A \<open>Map\<close> keeps its keys in insertion order, which \<open>obj_set\<close> does too. The
  counters are at most the length of the table, so they are exact and modelled by
  \<open>nat\<close>.
\<close>

definition group_key :: "jsval \<Rightarrow> jsstr" where
  "group_key raw =
     (if raw = JUndefined \<or> raw = JNull \<or> trim (String_js raw) = [] then lit ''Unknown''
      else String_js raw)"

fun group_loop :: "row list \<Rightarrow> jsstr \<Rightarrow> (jsstr \<times> nat) list \<Rightarrow> (jsstr \<times> nat) list" where
  "group_loop [] field groups = groups"
| "group_loop (row # data) field groups =
     (let raw = get row field;
          key = group_key raw
      in group_loop data field
           (obj_set groups key ((case map_of groups key of None \<Rightarrow> 0 | Some n \<Rightarrow> n) + 1)))"

text \<open>The output lists the pairs \<open>{key, count}\<close> of the entries of the map.\<close>

definition groupBy :: "row list \<Rightarrow> jsstr \<Rightarrow> (jsstr \<times> nat) list" where
  "groupBy data field = map (\<lambda>(k, count). (k, count)) (group_loop data field [])"

section \<open>Notions of the specification\<close>

text \<open>
  The keys of a sequence in the order in which each one occurs first.
\<close>

primrec first_seen :: "'a list \<Rightarrow> 'a list" where
  "first_seen [] = []"
| "first_seen (x # xs) = x # filter (\<lambda>y. y \<noteq> x) (first_seen xs)"

text \<open>
  The normalised key of a row as the specification words it: \<open>Unknown\<close> when the row
  lacks the field, when the value is \<open>null\<close> or \<open>undefined\<close>, or when nothing is left of
  its string form once the white space around it is removed; the string form of the
  value, untrimmed, otherwise.
\<close>

definition normalized_key :: "row \<Rightarrow> jsstr \<Rightarrow> jsstr" where
  "normalized_key r field =
     (case map_of r field of
        None \<Rightarrow> lit ''Unknown''
      | Some v \<Rightarrow>
          if v = JUndefined \<or> v = JNull \<or> trim (String_js v) = [] then lit ''Unknown''
          else String_js v)"

section \<open>Rounding to a double\<close>

declare bit_length.simps [simp del]

lemma bit_length_pos: "0 < n \<Longrightarrow> bit_length n = Suc (bit_length (n div 2))"
  by (subst bit_length.simps) simp

lemma bit_length_nonpos: "n \<le> 0 \<Longrightarrow> bit_length n = 0"
  by (subst bit_length.simps) simp

lemma bit_length_bounds:
  "0 < n \<Longrightarrow> 2 ^ (bit_length n - 1) \<le> n \<and> n < 2 ^ bit_length n"
proof (induction n rule: bit_length.induct)
  case (1 n)
  show ?case
  proof (cases "n div 2 = 0")
    case True
    with \<open>0 < n\<close> have "n = 1" by presburger
    then show ?thesis by (simp add: bit_length_pos bit_length_nonpos)
  next
    case False
    with \<open>0 < n\<close> have pos: "0 < n div 2" by presburger
    from "1.IH" \<open>0 < n\<close> pos
    have ih: "2 ^ (bit_length (n div 2) - 1) \<le> n div 2" "n div 2 < 2 ^ bit_length (n div 2)"
      by auto
    have bl: "bit_length n = Suc (bit_length (n div 2))"
      using \<open>0 < n\<close> by (rule bit_length_pos)
    obtain k where k: "bit_length (n div 2) = Suc k"
      using pos by (auto simp: bit_length_pos)
    from ih k have "2 * 2 ^ k \<le> 2 * (n div 2)" "2 * (n div 2) + 1 < 2 * 2 ^ Suc k"
      by auto
    moreover have "2 * (n div 2) \<le> n" "n \<le> 2 * (n div 2) + 1" by presburger+
    ultimately show ?thesis unfolding bl k by simp
  qed
qed


lemma binade_bounds:
  assumes "x \<noteq> 0"
  shows "2 powi binade x \<le> \<bar>x\<bar>" and "\<bar>x\<bar> < 2 powi (binade x + 1)"
proof -
  define p where "p = fst (quotient_of \<bar>x\<bar>)"
  define q where "q = snd (quotient_of \<bar>x\<bar>)"
  define d where "d = int (bit_length p) - int (bit_length q)"
  have qo: "quotient_of \<bar>x\<bar> = (p, q)" by (simp add: p_def q_def)
  then have q: "0 < q" and ax: "\<bar>x\<bar> = of_int p / of_int q"
    by (auto dest: quotient_of_denom_pos quotient_of_div)
  have p: "0 < p"
  proof -
    have "(0::rat) < of_int p / of_int q" using assms ax by simp
    then show ?thesis using q by (simp add: zero_less_divide_iff)
  qed
  note bp = bit_length_bounds[OF p] and bq = bit_length_bounds[OF q]
  obtain a where a: "bit_length p = Suc a" using p by (auto simp: bit_length_pos)
  obtain b where b: "bit_length q = Suc b" using q by (auto simp: bit_length_pos)
  have d: "d = int a - int b" by (simp add: d_def a b)
  from bp have "2 ^ a \<le> p" "p < 2 ^ Suc a" by (simp_all add: a)
  then have "(of_int (2 ^ a) :: rat) \<le> of_int p" "(of_int p :: rat) < of_int (2 ^ Suc a)"
    by (simp_all only: of_int_le_iff of_int_less_iff)
  then have P: "(2::rat) ^ a \<le> of_int p" "(of_int p :: rat) < 2 ^ Suc a"
    by simp_all
  from bq have "2 ^ b \<le> q" "q < 2 ^ Suc b" by (simp_all add: b)
  then have "(of_int (2 ^ b) :: rat) \<le> of_int q" "(of_int q :: rat) < of_int (2 ^ Suc b)"
    by (simp_all only: of_int_le_iff of_int_less_iff)
  then have Q: "(2::rat) ^ b \<le> of_int q" "(of_int q :: rat) < 2 ^ Suc b"
    by simp_all
  have Qpos: "(0::rat) < of_int q" using q by simp
  have lo: "2 powi (d - 1) \<le> \<bar>x\<bar>"
  proof -
    have "(2::rat) powi (d - 1) = 2 ^ a / 2 ^ Suc b"
      unfolding d by (simp add: power_int_diff)
    also have "\<dots> \<le> of_int p / of_int q"
      using P Q Qpos p by (intro frac_le) simp_all
    finally show ?thesis by (simp add: ax)
  qed
  have hi: "\<bar>x\<bar> < 2 powi (d + 1)"
  proof -
    have "of_int p / of_int q < (2::rat) ^ Suc a / 2 ^ b"
      using P Q Qpos p by (intro frac_less) simp_all
    also have "\<dots> = 2 powi (d + 1)"
      unfolding d by (simp add: power_int_diff power_int_add)
    finally show ?thesis by (simp add: ax)
  qed
  have bin: "binade x = (if 2 powi d \<le> \<bar>x\<bar> then d else d - 1)"
    by (simp add: binade_def Let_def p_def q_def d_def)
  show "2 powi binade x \<le> \<bar>x\<bar>" using lo by (simp add: bin)
  show "\<bar>x\<bar> < 2 powi (binade x + 1)" using hi by (auto simp: bin)
qed

lemma powi2_mono: "a \<le> b \<Longrightarrow> (2::rat) powi a \<le> 2 powi b"
  by (rule power_int_increasing) auto

lemma powi2_less_imp: "(2::rat) powi a < 2 powi b \<Longrightarrow> a < b"
  using powi2_mono[of b a] by (cases "a < b") auto

lemma binade_eqI:
  assumes "2 powi e \<le> \<bar>x\<bar>" "\<bar>x\<bar> < 2 powi (e + 1)"
  shows "binade x = e"
proof -
  have "\<not> (2::rat) powi e \<le> 0" by (simp add: not_le)
  with assms(1) have "x \<noteq> 0" by auto
  note b = binade_bounds[OF this]
  have "2 powi e < (2::rat) powi (binade x + 1)" using assms(1) b(2) by simp
  moreover have "2 powi binade x < (2::rat) powi (e + 1)" using assms(2) b(1) by simp
  ultimately show ?thesis by (auto dest!: powi2_less_imp)
qed

lemma rte_disj:
  "(roundTiesToEven x = \<lfloor>x\<rfloor> \<and> x - of_int \<lfloor>x\<rfloor> \<le> 1 / 2) \<or>
   (roundTiesToEven x = \<lfloor>x\<rfloor> + 1 \<and> 1 / 2 \<le> x - of_int \<lfloor>x\<rfloor>)"
proof -
  define d where "d = x - of_int \<lfloor>x\<rfloor>"
  have r: "roundTiesToEven x =
      (if d < 1 / 2 then \<lfloor>x\<rfloor> else if 1 / 2 < d then \<lfloor>x\<rfloor> + 1
       else if even \<lfloor>x\<rfloor> then \<lfloor>x\<rfloor> else \<lfloor>x\<rfloor> + 1)"
    unfolding roundTiesToEven_def Let_def d_def ..
  consider "d < 1 / 2" | "1 / 2 < d" | "d = 1 / 2" by linarith
  then show ?thesis
  proof cases
    case 1
    then show ?thesis unfolding r d_def[symmetric] by simp
  next
    case 2
    then show ?thesis unfolding r d_def[symmetric] by simp
  next
    case 3
    then show ?thesis unfolding r d_def[symmetric] by simp
  qed
qed

lemma rte_cases:
  obtains (down) "roundTiesToEven x = \<lfloor>x\<rfloor>" "x - of_int \<lfloor>x\<rfloor> \<le> 1 / 2"
  | (up) "roundTiesToEven x = \<lfloor>x\<rfloor> + 1" "1 / 2 \<le> x - of_int \<lfloor>x\<rfloor>"
  using rte_disj[of x] by blast

lemma rte_of_int: "roundTiesToEven (of_int n) = n"
  by (simp add: roundTiesToEven_def)

lemma rte_mono:
  assumes "x \<le> y"
  shows "roundTiesToEven x \<le> roundTiesToEven y"
proof (cases "\<lfloor>x\<rfloor> = \<lfloor>y\<rfloor>")
  case True
  then have "x - of_int \<lfloor>x\<rfloor> \<le> y - of_int \<lfloor>y\<rfloor>" using assms by simp
  then show ?thesis
    by (auto simp: roundTiesToEven_def Let_def True)
next
  case False
  have "\<lfloor>x\<rfloor> \<le> \<lfloor>y\<rfloor>" using assms by (rule floor_mono)
  with False have lt: "\<lfloor>x\<rfloor> + 1 \<le> \<lfloor>y\<rfloor>" by simp
  have "roundTiesToEven x \<le> \<lfloor>x\<rfloor> + 1"
    by (cases x rule: rte_cases) simp_all
  moreover have "\<lfloor>y\<rfloor> \<le> roundTiesToEven y"
    by (cases y rule: rte_cases) simp_all
  ultimately show ?thesis using lt by linarith
qed


lemma to_double_alt:
  "to_double x =
     (if x = 0 then Fin 0
      else if 2 ^ 1024 \<le> round_abs x then (if x < 0 then NegInf else PosInf)
      else Fin (if x < 0 then - round_abs x else round_abs x))"
  by (simp add: to_double_def Let_def)

lemma ulp_pos: "0 < ulp x"
  by (simp add: ulp_def)

lemma powi2_split: "(2::rat) powi (a + b) = 2 powi a * 2 powi b"
  by (simp add: power_int_add)

lemma ulp_times_52: "ulp x * 2 powi 52 = 2 powi max (binade x) (- 1022)"
  unfolding ulp_def powi2_split[symmetric] by simp

lemma ulp_times_53: "ulp x * 2 powi 53 = 2 powi (max (binade x) (- 1022) + 1)"
  unfolding ulp_def powi2_split[symmetric] by (simp add: add.commute)

lemma binade_mono:
  assumes "x \<noteq> 0" "\<bar>x\<bar> \<le> \<bar>y\<bar>"
  shows "binade x \<le> binade y"
proof -
  have "y \<noteq> 0" using assms by auto
  have "2 powi binade x \<le> \<bar>x\<bar>" using assms(1) by (rule binade_bounds)
  also have "\<dots> \<le> \<bar>y\<bar>" by fact
  also have "\<dots> < 2 powi (binade y + 1)" using \<open>y \<noteq> 0\<close> by (rule binade_bounds)
  finally have "binade x < binade y + 1" by (rule powi2_less_imp)
  then show ?thesis by simp
qed

lemma round_abs_nonneg: "0 \<le> round_abs x"
proof -
  have "0 \<le> \<bar>x\<bar> / ulp x" using ulp_pos[of x] by simp
  then have "roundTiesToEven 0 \<le> roundTiesToEven (\<bar>x\<bar> / ulp x)" by (rule rte_mono)
  then have "0 \<le> roundTiesToEven (\<bar>x\<bar> / ulp x)" using rte_of_int[of 0] by simp
  then show ?thesis using ulp_pos[of x] by (simp add: round_abs_def)
qed

lemma round_abs_lower:
  assumes "x \<noteq> 0" "- 1022 \<le> binade x"
  shows "2 powi binade x \<le> round_abs x"
proof -
  have e: "max (binade x) (- 1022) = binade x" using assms(2) by simp
  have "ulp x * 2 powi 52 \<le> \<bar>x\<bar>"
    unfolding ulp_times_52 e using assms(1) by (rule binade_bounds)
  then have "2 powi 52 \<le> \<bar>x\<bar> / ulp x"
    using ulp_pos[of x] by (simp add: pos_le_divide_eq mult.commute)
  then have "of_int (2 ^ 52) \<le> \<bar>x\<bar> / ulp x" by simp
  then have "roundTiesToEven (of_int (2 ^ 52)) \<le> roundTiesToEven (\<bar>x\<bar> / ulp x)"
    by (rule rte_mono)
  then have "2 ^ 52 \<le> roundTiesToEven (\<bar>x\<bar> / ulp x)"
    unfolding rte_of_int .
  then have "(of_int (2 ^ 52) :: rat) \<le> of_int (roundTiesToEven (\<bar>x\<bar> / ulp x))"
    by (simp only: of_int_le_iff)
  then have "of_int (2 ^ 52) * ulp x \<le> round_abs x"
    unfolding round_abs_def using ulp_pos[of x] by (simp only: mult_le_cancel_right) simp
  moreover have "of_int (2 ^ 52) * ulp x = 2 powi binade x"
    using ulp_times_52[of x] unfolding e by (simp add: mult.commute)
  ultimately show ?thesis by simp
qed

lemma round_abs_upper:
  assumes "x \<noteq> 0"
  shows "round_abs x \<le> 2 powi (max (binade x) (- 1022) + 1)"
proof -
  have "\<bar>x\<bar> < 2 powi (binade x + 1)" using assms by (rule binade_bounds)
  also have "\<dots> \<le> 2 powi (max (binade x) (- 1022) + 1)" by (rule powi2_mono) simp
  finally have "\<bar>x\<bar> \<le> ulp x * 2 powi 53" unfolding ulp_times_53 by simp
  then have "\<bar>x\<bar> / ulp x \<le> 2 powi 53"
    using ulp_pos[of x] by (simp add: pos_divide_le_eq mult.commute)
  then have "\<bar>x\<bar> / ulp x \<le> of_int (2 ^ 53)" by simp
  then have "roundTiesToEven (\<bar>x\<bar> / ulp x) \<le> roundTiesToEven (of_int (2 ^ 53))"
    by (rule rte_mono)
  then have "roundTiesToEven (\<bar>x\<bar> / ulp x) \<le> 2 ^ 53"
    unfolding rte_of_int .
  then have "(of_int (roundTiesToEven (\<bar>x\<bar> / ulp x)) :: rat) \<le> of_int (2 ^ 53)"
    by (simp only: of_int_le_iff)
  then have "round_abs x \<le> of_int (2 ^ 53) * ulp x"
    unfolding round_abs_def using ulp_pos[of x] by (simp only: mult_le_cancel_right) simp
  moreover have "of_int (2 ^ 53) * ulp x = 2 powi (max (binade x) (- 1022) + 1)"
    using ulp_times_53[of x] by (simp add: mult.commute)
  ultimately show ?thesis by simp
qed

lemma round_abs_mono:
  assumes "x \<noteq> 0" "\<bar>x\<bar> \<le> \<bar>y\<bar>"
  shows "round_abs x \<le> round_abs y"
proof -
  have y: "y \<noteq> 0" using assms by auto
  have b: "binade x \<le> binade y" using assms by (rule binade_mono)
  show ?thesis
  proof (cases "max (binade x) (- 1022) = max (binade y) (- 1022)")
    case True
    then have u: "ulp x = ulp y" by (simp add: ulp_def)
    have "\<bar>x\<bar> / ulp y \<le> \<bar>y\<bar> / ulp y"
      using assms(2) ulp_pos[of y] by (simp add: divide_right_mono)
    then have "roundTiesToEven (\<bar>x\<bar> / ulp y) \<le> roundTiesToEven (\<bar>y\<bar> / ulp y)"
      by (rule rte_mono)
    then have "(of_int (roundTiesToEven (\<bar>x\<bar> / ulp y)) :: rat) \<le>
        of_int (roundTiesToEven (\<bar>y\<bar> / ulp y))"
      by (simp only: of_int_le_iff)
    then show ?thesis
      unfolding round_abs_def u using ulp_pos[of y] by (simp only: mult_le_cancel_right) simp
  next
    case False
    with b have lt: "max (binade x) (- 1022) + 1 \<le> binade y" and n: "- 1022 \<le> binade y"
      by auto
    have "round_abs x \<le> 2 powi (max (binade x) (- 1022) + 1)"
      using assms(1) by (rule round_abs_upper)
    also have "\<dots> \<le> 2 powi binade y" using lt by (rule powi2_mono)
    also have "\<dots> \<le> round_abs y" using y n by (rule round_abs_lower)
    finally show ?thesis .
  qed
qed

lemma round_abs_grid:
  assumes "\<bar>y\<bar> = of_int m * ulp y"
  shows "round_abs y = \<bar>y\<bar>"
proof -
  have "\<bar>y\<bar> / ulp y = of_int m" using ulp_pos[of y] by (simp add: assms)
  then show ?thesis by (simp add: round_abs_def rte_of_int assms)
qed

lemma round_abs_zero: "round_abs 0 = 0"
  using rte_of_int[of 0] by (simp add: round_abs_def)

lemma round_abs_idem:
  assumes "x \<noteq> 0"
  shows "round_abs (round_abs x) = round_abs x"
proof (cases "round_abs x = 0")
  case True
  show ?thesis unfolding True by (rule round_abs_zero)
next
  case False
  define y where "y = round_abs x"
  define E where "E = max (binade x) (- 1022)"
  have ypos: "0 < y" using False round_abs_nonneg[of x] by (simp add: y_def)
  then have ay: "\<bar>y\<bar> = y" by simp
  have up: "y \<le> 2 powi (E + 1)"
    unfolding y_def E_def using assms by (rule round_abs_upper)
  have "round_abs y = \<bar>y\<bar>"
  proof (cases "y = 2 powi (E + 1)")
    case True
    have "2 powi (E + 1) \<le> \<bar>y\<bar>" by (simp add: True)
    moreover have "(2::rat) powi (E + 1) < 2 powi (E + 1 + 1)"
      by (rule power_int_strict_increasing) simp_all
    then have "\<bar>y\<bar> < 2 powi (E + 1 + 1)" by (simp add: True)
    ultimately have "binade y = E + 1" by (rule binade_eqI)
    then have "max (binade y) (- 1022) = E + 1" by (simp add: E_def)
    with ulp_times_52[of y] have "ulp y * 2 powi 52 = y" by (simp add: True)
    then have "\<bar>y\<bar> = of_int (2 ^ 52) * ulp y" by (simp add: ay mult.commute)
    then show ?thesis by (rule round_abs_grid)
  next
    case neq: False
    with up have lt: "y < 2 powi (E + 1)" by simp
    have "max (binade y) (- 1022) = E"
    proof (cases "- 1022 \<le> binade x")
      case True
      then have E: "E = binade x" by (simp add: E_def)
      have "2 powi E \<le> y"
        unfolding y_def E using assms True by (rule round_abs_lower)
      then have "2 powi E \<le> \<bar>y\<bar>" by (simp add: ay)
      moreover have "\<bar>y\<bar> < 2 powi (E + 1)" using lt by (simp add: ay)
      ultimately have "binade y = E" by (rule binade_eqI)
      then show ?thesis using True by (simp add: E)
    next
      case False
      then have E: "E = - 1022" by (simp add: E_def)
      have "y \<noteq> 0" using ypos by simp
      then have "2 powi binade y \<le> \<bar>y\<bar>" by (rule binade_bounds)
      also have "\<dots> < 2 powi (E + 1)" using lt by (simp add: ay)
      finally have "binade y < E + 1" by (rule powi2_less_imp)
      then show ?thesis by (simp add: E)
    qed
    then have u: "ulp y = ulp x" by (simp add: ulp_def E_def)
    have "y = of_int (roundTiesToEven (\<bar>x\<bar> / ulp x)) * ulp x"
      by (simp add: y_def round_abs_def)
    then have "\<bar>y\<bar> = of_int (roundTiesToEven (\<bar>x\<bar> / ulp x)) * ulp y"
      unfolding ay u .
    then show ?thesis by (rule round_abs_grid)
  qed
  then have "round_abs y = y" by (simp only: ay)
  then show ?thesis by (simp only: y_def)
qed

lemma binade_minus: "binade (- x) = binade x"
  by (simp add: binade_def)

lemma round_abs_minus: "round_abs (- x) = round_abs x"
  by (simp add: round_abs_def ulp_def binade_minus)

lemma to_double_minus: "to_double (- x) = js_neg (to_double x)"
  by (simp add: to_double_alt round_abs_minus)

lemma to_double_not_NaN: "to_double x \<noteq> NaN"
  by (simp add: to_double_alt)

lemma to_double_idem:
  assumes "to_double x = Fin y"
  shows "to_double y = Fin y"
proof (cases "x = 0")
  case True
  with assms show ?thesis by (simp add: to_double_alt)
next
  case False
  from assms False have small: "\<not> 2 ^ 1024 \<le> round_abs x"
    and y: "y = (if x < 0 then - round_abs x else round_abs x)"
    by (auto simp: to_double_alt split: if_splits)
  have r: "round_abs y = round_abs x"
    using round_abs_idem[OF False] by (simp add: y round_abs_minus)
  show ?thesis
  proof (cases "y = 0")
    case True
    then show ?thesis by (simp add: to_double_alt)
  next
    case y0: False
    have sgn: "y < 0 \<longleftrightarrow> x < 0"
      using y0 round_abs_nonneg[of x] by (auto simp: y)
    have "to_double y = Fin (if y < 0 then - round_abs y else round_abs y)"
      using y0 small by (simp add: to_double_alt r)
    also have "(if y < 0 then - round_abs y else round_abs y) = y"
      unfolding r sgn by (simp add: y)
    finally show ?thesis .
  qed
qed

lemma to_double_mono:
  assumes "x \<le> y"
  shows "js_le (to_double x) (to_double y)"
proof -
  consider "x = 0" | "y = 0" "x \<noteq> 0" | "0 < x" | "y < 0" | "x < 0" "0 < y"
    using assms by linarith
  then show ?thesis
  proof cases
    case 1
    then show ?thesis
      using assms round_abs_nonneg[of y] by (auto simp: to_double_alt)
  next
    case 2
    then show ?thesis
      using assms round_abs_nonneg[of x] by (auto simp: to_double_alt)
  next
    case 3
    then have "x \<noteq> 0" "\<bar>x\<bar> \<le> \<bar>y\<bar>" using assms by auto
    then have "round_abs x \<le> round_abs y" by (rule round_abs_mono)
    then show ?thesis
      using 3 assms by (auto simp: to_double_alt)
  next
    case 4
    then have "y \<noteq> 0" "\<bar>y\<bar> \<le> \<bar>x\<bar>" using assms by auto
    then have "round_abs y \<le> round_abs x" by (rule round_abs_mono)
    then show ?thesis
      using 4 assms by (auto simp: to_double_alt)
  next
    case 5
    then show ?thesis
      using round_abs_nonneg[of x] round_abs_nonneg[of y] by (auto simp: to_double_alt)
  qed
qed

subsection \<open>Rounding particular values\<close>

lemma floor_rat_numeral_div:
  "\<lfloor>numeral a / numeral b :: rat\<rfloor> = numeral a div numeral b"
  by (metis floor_divide_of_int_eq of_int_numeral)

lemmas round_defs = to_double_def round_abs_def ulp_def roundTiesToEven_def Let_def
  floor_rat_numeral_div

lemma to_double_0: "to_double 0 = Fin 0"
  by (simp add: to_double_def)

lemma to_double_1: "to_double 1 = Fin 1"
proof -
  have "binade 1 = 0" by (rule binade_eqI) simp_all
  then show ?thesis by (simp add: round_defs)
qed

lemma to_double_3: "to_double 3 = Fin 3"
proof -
  have "binade 3 = 1" by (rule binade_eqI) simp_all
  then show ?thesis by (simp add: round_defs)
qed

lemma to_double_4: "to_double 4 = Fin 4"
proof -
  have "binade 4 = 2" by (rule binade_eqI) simp_all
  then show ?thesis by (simp add: round_defs)
qed

lemma to_double_4_3: "to_double (4 / 3) = Fin (6004799503160661 / 4503599627370496)"
proof -
  have "binade (4 / 3) = 0" by (rule binade_eqI) simp_all
  then show ?thesis by (simp add: round_defs)
qed

lemma to_double_3_2: "to_double (3 / 2) = Fin (3 / 2)"
proof -
  have "binade (3 / 2) = 0" by (rule binade_eqI) simp_all
  then show ?thesis by (simp add: round_defs)
qed

lemma to_double_tenth: "to_double (1 / 10) = Fin (3602879701896397 / 36028797018963968)"
proof -
  have "binade (1 / 10) = - 4" by (rule binade_eqI) simp_all
  then show ?thesis by (simp add: round_defs)
qed

lemma to_double_tenth_again:
  "to_double (3602879701896397 / 36028797018963968) = Fin (3602879701896397 / 36028797018963968)"
  using to_double_tenth by (rule to_double_idem)

lemma to_double_two_tenths:
  "to_double (3602879701896397 / 18014398509481984) = Fin (3602879701896397 / 18014398509481984)"
proof -
  have "binade (3602879701896397 / 18014398509481984) = - 3" by (rule binade_eqI) simp_all
  then show ?thesis by (simp add: round_defs)
qed

lemma to_double_three_tenths:
  "to_double (10808639105689191 / 36028797018963968) = Fin (1351079888211149 / 4503599627370496)"
proof -
  have "binade (10808639105689191 / 36028797018963968) = - 2" by (rule binade_eqI) simp_all
  then show ?thesis by (simp add: round_defs)
qed

lemma to_double_mean_tenths:
  "to_double (1351079888211149 / 13510798882111488) = Fin (7205759403792795 / 72057594037927936)"
proof -
  have "binade (1351079888211149 / 13510798882111488) = - 4" by (rule binade_eqI) simp_all
  then show ?thesis by (simp add: round_defs)
qed

section \<open>Strings and numbers\<close>

lemma lit_eq_iff: "lit a = lit b \<longleftrightarrow> a = b"
  by (simp add: lit_def inj_of_char)

lemma lit_Nil_iff: "lit a = [] \<longleftrightarrow> a = []"
  by (simp add: lit_def)

lemmas parse_defs =
  StringToNumber_def trim_def is_ws_def non_decimal_def digits_def digits_value_def
  is_digit_def digit_val_def str_unsigned_def str_decimal_def exponent_part_def
  signed_integer_def lit_def Let_def

lemma Number_lit_1: "StringToNumber (lit ''1'') = Fin 1"
  by (simp add: parse_defs to_double_1)

lemma Number_lit_3: "StringToNumber (lit ''3'') = Fin 3"
  by (simp add: parse_defs to_double_3)

lemma Number_lit_x: "StringToNumber (lit ''x'') = NaN"
  by (simp add: parse_defs)

lemma Number_lit_CA: "StringToNumber (lit ''CA'') = NaN"
  by (simp add: parse_defs)

lemma Number_lit_tenth:
  "StringToNumber (lit ''0.1'') = Fin (3602879701896397 / 36028797018963968)"
  by (simp add: parse_defs to_double_tenth)

lemma StringToNumber_empty: "StringToNumber [] = Fin 0"
  by (simp add: StringToNumber_def trim_def)

lemma str_unsigned_double:
  assumes "str_unsigned u = Fin q"
  shows "to_double q = Fin q"
  using assms
  by (auto simp: str_unsigned_def split: if_splits option.splits intro: to_double_idem)

lemma js_neg_Fin: "js_neg v = Fin q \<Longrightarrow> v = Fin (- q)"
  by (cases v) auto

lemma StringToNumber_double:
  assumes s: "StringToNumber s = Fin q"
  shows "to_double q = Fin q"
proof (cases "trim s")
  case Nil
  with s show ?thesis by (auto simp: StringToNumber_def to_double_0)
next
  case (Cons c u)
  show ?thesis
  proof (cases "non_decimal (c # u)")
    case (Some n)
    with s Cons have "to_double (of_int n) = Fin q" by (simp add: StringToNumber_def)
    then show ?thesis by (rule to_double_idem)
  next
    case None
    consider "c = 43" | "c \<noteq> 43" "c = 45" | "c \<noteq> 43" "c \<noteq> 45" by blast
    then show ?thesis
    proof cases
      case 1
      with s Cons None have "str_unsigned u = Fin q" by (simp add: StringToNumber_def)
      then show ?thesis by (rule str_unsigned_double)
    next
      case 2
      with s Cons None have "js_neg (str_unsigned u) = Fin q"
        by (simp add: StringToNumber_def)
      then have "str_unsigned u = Fin (- q)" by (rule js_neg_Fin)
      then have "to_double (- q) = Fin (- q)" by (rule str_unsigned_double)
      then show ?thesis using to_double_minus[of "- q"] by simp
    next
      case 3
      with s Cons None have "str_unsigned (c # u) = Fin q"
        by (simp add: StringToNumber_def)
      then show ?thesis by (rule str_unsigned_double)
    qed
  qed
qed

lemma Number_double:
  assumes "Number v = Fin q"
  shows "to_double q = Fin q"
proof (cases v)
  case JUndefined
  with assms show ?thesis by simp
next
  case JNull
  with assms show ?thesis by (auto simp: to_double_0)
next
  case (JStr s)
  with assms have "StringToNumber s = Fin q" by simp
  then show ?thesis by (rule StringToNumber_double)
next
  case (JNative name)
  with assms have "StringToNumber (String_js (JNative name)) = Fin q" by simp
  then show ?thesis by (rule StringToNumber_double)
next
  case JObjectPrototype
  with assms have "StringToNumber (String_js JObjectPrototype) = Fin q" by simp
  then show ?thesis by (rule StringToNumber_double)
qed

section \<open>Objects and maps\<close>

lemma map_of_obj_set: "map_of (obj_set kvs k v) = (map_of kvs)(k \<mapsto> v)"
  by (induction kvs) auto

lemma keys_obj_set_old: "k \<in> fst ` set kvs \<Longrightarrow> map fst (obj_set kvs k v) = map fst kvs"
proof (induction kvs)
  case Nil
  then show ?case by simp
next
  case (Cons kv kvs)
  show ?case
  proof (cases "fst kv = k")
    case True
    then show ?thesis by (cases kv) simp
  next
    case False
    with Cons.prems have "k \<in> fst ` set kvs" by auto
    with Cons.IH False show ?thesis by (cases kv) simp
  qed
qed

lemma keys_obj_set_new: "k \<notin> fst ` set kvs \<Longrightarrow> map fst (obj_set kvs k v) = map fst kvs @ [k]"
  by (induction kvs) auto

lemma keys_obj_set:
  "map fst (obj_set kvs k v) = (if k \<in> fst ` set kvs then map fst kvs else map fst kvs @ [k])"
  by (simp add: keys_obj_set_old keys_obj_set_new)

lemma sum_obj_set:
  "sum_list (map snd (obj_set g k (Suc (case map_of g k of None \<Rightarrow> 0 | Some n \<Rightarrow> n)))) =
     Suc (sum_list (map snd g))"
  by (induction g) auto

section \<open>Grouping: the loop\<close>

lemma trim_empty_iff: "trim s = [] \<longleftrightarrow> list_all is_ws s"
proof -
  have "trim s = [] \<longleftrightarrow> (\<forall>x\<in>set (dropWhile is_ws s). is_ws x)"
    by (simp only: trim_def rev_is_Nil_conv dropWhile_eq_Nil_conv set_rev)
  also have "\<dots> \<longleftrightarrow> dropWhile is_ws s = []"
  proof (cases "dropWhile is_ws s = []")
    case True
    show ?thesis unfolding True by simp
  next
    case False
    then have "\<not> is_ws (hd (dropWhile is_ws s))" by (rule hd_dropWhile)
    moreover have "hd (dropWhile is_ws s) \<in> set (dropWhile is_ws s)"
      using False by (rule hd_in_set)
    ultimately show ?thesis using False by blast
  qed
  also have "\<dots> \<longleftrightarrow> list_all is_ws s"
    by (simp add: list_all_iff)
  finally show ?thesis .
qed

lemma group_key_normalized:
  assumes "inherited field = JUndefined"
  shows "group_key (get r field) = normalized_key r field"
  by (simp add: group_key_def get_def normalized_key_def assms split: option.splits)

lemma sum_group_loop:
  "sum_list (map snd (group_loop data field groups)) = sum_list (map snd groups) + length data"
proof (induction data arbitrary: groups)
  case Nil
  show ?case by simp
next
  case (Cons row data)
  show ?case
    by (simp add: Let_def Cons.IH sum_obj_set)
qed

lemma keys_group_loop:
  "map fst (group_loop data field groups) =
     map fst groups @
     filter (\<lambda>k. k \<notin> fst ` set groups) (first_seen (map (\<lambda>row. group_key (get row field)) data))"
proof (induction data arbitrary: groups)
  case Nil
  show ?case by simp
next
  case (Cons row data)
  define k where "k = group_key (get row field)"
  define F where "F = first_seen (map (\<lambda>row. group_key (get row field)) data)"
  define g' where "g' = obj_set groups k ((case map_of groups k of None \<Rightarrow> 0 | Some n \<Rightarrow> n) + 1)"
  have step: "group_loop (row # data) field groups = group_loop data field g'"
    by (simp add: Let_def k_def g'_def)
  have ih: "map fst (group_loop data field g') = map fst g' @ filter (\<lambda>k. k \<notin> fst ` set g') F"
    unfolding F_def by (rule Cons.IH)
  have keys: "map fst g' = (if k \<in> fst ` set groups then map fst groups else map fst groups @ [k])"
    unfolding g'_def by (rule keys_obj_set)
  have img: "fst ` set g' = insert k (fst ` set groups)"
  proof -
    have "fst ` set g' = set (map fst g')" by simp
    also have "\<dots> = insert k (fst ` set groups)" unfolding keys by auto
    finally show ?thesis .
  qed
  have rhs: "first_seen (map (\<lambda>row. group_key (get row field)) (row # data)) =
      k # filter (\<lambda>y. y \<noteq> k) F"
    by (simp add: k_def F_def)
  show ?case
  proof (cases "k \<in> fst ` set groups")
    case True
    then have "filter (\<lambda>x. x \<notin> fst ` set groups) (filter (\<lambda>y. y \<noteq> k) F) =
        filter (\<lambda>x. x \<notin> fst ` set groups) F"
      by (auto intro: filter_cong)
    with True show ?thesis
      unfolding step ih rhs keys img by (simp add: insert_absorb)
  next
    case False
    have "filter (\<lambda>x. x \<notin> insert k (fst ` set groups)) F =
        filter (\<lambda>x. x \<notin> fst ` set groups) (filter (\<lambda>y. y \<noteq> k) F)"
      by (auto intro: filter_cong)
    with False show ?thesis
      unfolding step ih rhs keys img by simp
  qed
qed

lemma map_of_group_loop:
  "map_of (group_loop data field groups) k =
     (let n = length (filter (\<lambda>row. group_key (get row field) = k) data)
      in if n = 0 then map_of groups k
         else Some (n + (case map_of groups k of None \<Rightarrow> 0 | Some m \<Rightarrow> m)))"
proof (induction data arbitrary: groups)
  case Nil
  show ?case by simp
next
  case (Cons row data)
  show ?case
    by (simp add: Let_def Cons.IH map_of_obj_set split: option.splits)
qed

lemma groupBy_loop: "groupBy data field = group_loop data field []"
  by (simp add: groupBy_def)

lemma get_Nil: "get [] k = inherited k"
  by (simp add: get_def)

lemma get_Cons: "get ((k', v) # r) k = (if k' = k then v else get r k)"
  by (simp add: get_def)

lemma group_key_simps:
  "group_key JUndefined = lit ''Unknown''"
  "group_key JNull = lit ''Unknown''"
  "group_key (JStr s) = (if list_all is_ws s then lit ''Unknown'' else s)"
  "group_key (JNative name) = lit ''function '' @ name @ lit ''() { [native code] }''"
  "group_key JObjectPrototype = lit ''[object Object]''"
  by (simp_all add: group_key_def trim_empty_iff lit_def is_ws_def)

lemma group_loop_Cons:
  "group_loop (row # data) field groups =
     group_loop data field
       (obj_set groups (group_key (get row field))
          (Suc (case map_of groups (group_key (get row field)) of None \<Rightarrow> 0 | Some n \<Rightarrow> n)))"
  by (simp add: Let_def)

lemmas group_eval =
  groupBy_loop group_loop_Cons group_key_simps get_Nil get_Cons inherited_def
  Object_prototype_functions_def is_ws_def lit_def

lemma set_first_seen: "set (first_seen xs) = set xs"
  by (induction xs) auto

lemma distinct_first_seen: "distinct (first_seen xs)"
  by (induction xs) (auto simp: set_first_seen)

section \<open>Grouping: the claims\<close>

text \<open>
  For a field that is not the name of a member of \<open>Object.prototype\<close>, the rows counted
  under a key are the rows whose normalised key it is, the normalised key being the one
  of the specification.
\<close>

lemma groupBy_counts_normalized:
  assumes "inherited field = JUndefined"
  shows "map_of (groupBy data field) k =
     (let n = length (filter (\<lambda>row. normalized_key row field = k) data)
      in if n = 0 then None else Some n)"
  by (simp add: groupBy_loop map_of_group_loop group_key_normalized[OF assms] Let_def)

lemma groupBy_scenario:
  "groupBy [[(lit ''State'', JStr (lit ''CA''))], [(lit ''State'', JStr [])],
            [(lit ''State'', JNull)]] (lit ''State'') =
     [(lit ''CA'', 1), (lit ''Unknown'', 2)]"
  by (simp add: group_eval del: group_loop.simps(2))

text \<open>
  C4. A row that lacks the field is meant to be counted under \<open>Unknown\<close>, for every
  field. The code reads the field with \<open>row[by]\<close>, which also finds what the row inherits
  from \<open>Object.prototype\<close>: grouped by \<open>constructor\<close>, two rows that have no such column
  are counted under the text of the function \<open>Object\<close>, not under \<open>Unknown\<close>.
\<close>

theorem groupBy_inherited_member:
  "groupBy [[(lit ''State'', JStr (lit ''CA''))], [(lit ''State'', JStr [])]]
     (lit ''constructor'') =
     [(lit ''function Object() { [native code] }'', 2)]"
  by (simp add: group_eval del: group_loop.simps(2))

text \<open>
  C6. For every table and field, the counts of the output of \<open>groupBy\<close> add up to the
  number of rows of the table, and an empty table gives an empty output.
\<close>

theorem groupBy_counts_sum:
  "sum_list (map snd (groupBy data field)) = length data \<and> groupBy [] field = []"
  by (simp add: groupBy_loop sum_group_loop)

theorem groupBy_counts_sum_witness:
  "sum_list (map snd (groupBy [[(lit ''State'', JStr (lit ''CA''))], [(lit ''State'', JNull)],
      [(lit ''State'', JStr (lit ''CA''))]] (lit ''State''))) = 3"
  using groupBy_counts_sum
    [of "[[(lit ''State'', JStr (lit ''CA''))], [(lit ''State'', JNull)],
          [(lit ''State'', JStr (lit ''CA''))]]" "lit ''State''"]
  by simp

text \<open>
  C7. For every table and field, the keys of the output of \<open>groupBy\<close> are the distinct
  keys that the code computes for the rows, each at the place where it occurs first when
  the rows are read in table order. The output is sorted neither by key nor by count:
  the keys \<open>b, a, a, c\<close> give \<open>b: 1, a: 2, c: 1\<close>.
\<close>

theorem groupBy_first_seen_order:
  "map fst (groupBy data field) = first_seen (map (\<lambda>row. group_key (get row field)) data) \<and>
   distinct (map fst (groupBy data field)) \<and>
   groupBy [[(lit ''S'', JStr (lit ''b''))], [(lit ''S'', JStr (lit ''a''))],
            [(lit ''S'', JStr (lit ''a''))], [(lit ''S'', JStr (lit ''c''))]] (lit ''S'') =
     [(lit ''b'', 1), (lit ''a'', 2), (lit ''c'', 1)]"
proof -
  have keys: "map fst (groupBy data field) =
      first_seen (map (\<lambda>row. group_key (get row field)) data)"
    by (simp add: groupBy_loop keys_group_loop)
  have "groupBy [[(lit ''S'', JStr (lit ''b''))], [(lit ''S'', JStr (lit ''a''))],
            [(lit ''S'', JStr (lit ''a''))], [(lit ''S'', JStr (lit ''c''))]] (lit ''S'') =
     [(lit ''b'', 1), (lit ''a'', 2), (lit ''c'', 1)]"
    by (simp add: group_eval del: group_loop.simps(2))
  with keys show ?thesis
    by (simp only: distinct_first_seen simp_thms)
qed

theorem groupBy_first_seen_order_witness:
  "map fst (groupBy [[(lit ''S'', JStr (lit ''b''))], [(lit ''S'', JStr [])],
      [(lit ''S'', JStr (lit ''b''))], [(lit ''T'', JStr (lit ''b''))]] (lit ''S'')) =
     [lit ''b'', lit ''Unknown'']"
  using groupBy_first_seen_order
    [of "[[(lit ''S'', JStr (lit ''b''))], [(lit ''S'', JStr [])],
          [(lit ''S'', JStr (lit ''b''))], [(lit ''T'', JStr (lit ''b''))]]" "lit ''S''"]
  by (simp add: group_key_simps get_Nil get_Cons inherited_def Object_prototype_functions_def
      is_ws_def lit_def)

section \<open>Numeric columns\<close>

lemma numericColumns_Cons:
  "numericColumns (r0 # rest) =
     filter (\<lambda>col. list_all (\<lambda>r. get r col = JStr [] \<or> \<not> isNaN (Number (get r col))) (r0 # rest))
       (Object_keys r0)"
  by (simp add: numericColumns_def)

lemma numericColumns_iff:
  "col \<in> set (numericColumns rows) \<longleftrightarrow>
     (case rows of
        [] \<Rightarrow> False
      | r0 # _ \<Rightarrow>
          col \<in> set (Object_keys r0) \<and>
          (\<forall>r\<in>set rows. get r col = JStr [] \<or> \<not> isNaN (Number (get r col))))"
  by (cases rows) (simp_all add: numericColumns_def list_all_iff)

lemma Number_blank:
  assumes "list_all is_ws s"
  shows "Number (JStr s) = Fin 0"
proof -
  have "trim s = []" using assms by (simp add: trim_empty_iff)
  then show ?thesis by (simp add: StringToNumber_def)
qed

text \<open>
  C3. For every table with a first row, \<open>numericColumns\<close> gives the keys of the first
  row, in their order, that every row of the table maps to the empty string or to
  something \<open>Number\<close> does not turn into \<open>NaN\<close>; one other cell excludes the column. For
  the table without rows it gives the empty sequence.
\<close>

theorem numericColumns_exactly:
  "numericColumns rows =
     (case rows of
        [] \<Rightarrow> []
      | r0 # _ \<Rightarrow>
          filter (\<lambda>col. \<forall>r\<in>set rows. get r col = JStr [] \<or> Number (get r col) \<noteq> NaN)
            (Object_keys r0))"
  by (cases rows) (simp_all add: numericColumns_def list_all_iff isNaN_def)

theorem numericColumns_exactly_witness:
  "numericColumns [[(lit ''State'', JStr (lit ''CA'')), (lit ''Val'', JStr (lit ''1''))],
                   [(lit ''State'', JStr []), (lit ''Val'', JStr [])]] = [lit ''Val'']"
  by (subst numericColumns_exactly)
    (simp add: Object_keys_def get_Cons get_Nil lit_eq_iff lit_Nil_iff Number_lit_1 Number_lit_CA
      StringToNumber_empty)

text \<open>
  C9. For every table, the numeric columns are columns of its first row, and a row
  appended with a value in column \<open>C\<close> that is neither the empty string nor a number
  leaves \<open>C\<close> out of the numeric columns of the longer table.
\<close>

theorem numericColumns_subset_and_append:
  "set (numericColumns T) \<subseteq> (case T of [] \<Rightarrow> {} | r0 # _ \<Rightarrow> set (Object_keys r0)) \<and>
   (get r C \<noteq> JStr [] \<and> isNaN (Number (get r C)) \<longrightarrow> C \<notin> set (numericColumns (T @ [r])))"
proof
  show "set (numericColumns T) \<subseteq> (case T of [] \<Rightarrow> {} | r0 # _ \<Rightarrow> set (Object_keys r0))"
    by (cases T) (auto simp: numericColumns_def)
  show "get r C \<noteq> JStr [] \<and> isNaN (Number (get r C)) \<longrightarrow> C \<notin> set (numericColumns (T @ [r]))"
    by (cases T) (auto simp: numericColumns_iff)
qed

theorem numericColumns_subset_and_append_witness:
  "set (numericColumns [[(lit ''Val'', JStr (lit ''1''))]]) \<subseteq> {lit ''Val''} \<and>
   lit ''Val'' \<notin> set (numericColumns [[(lit ''Val'', JStr (lit ''1''))],
                                       [(lit ''Val'', JStr (lit ''x''))]])"
proof -
  have "get [(lit ''Val'', JStr (lit ''x''))] (lit ''Val'') \<noteq> JStr [] \<and>
      isNaN (Number (get [(lit ''Val'', JStr (lit ''x''))] (lit ''Val'')))"
    by (simp add: get_Cons lit_Nil_iff Number_lit_x isNaN_def)
  with numericColumns_subset_and_append
    [of "[[(lit ''Val'', JStr (lit ''1''))]]" "[(lit ''Val'', JStr (lit ''x''))]" "lit ''Val''"]
  show ?thesis by (simp add: Object_keys_def)
qed

section \<open>The summary: the loops\<close>

lemma stats_loop_Cons:
  "stats_loop rows (col # cols) stats =
     (if column_values rows col = [] then stats_loop rows cols stats
      else stats_loop rows cols (obj_set stats col (stats_of_values (column_values rows col))))"
  by (simp add: Let_def)

lemma map_of_stats_loop:
  "map_of (stats_loop rows cols stats) col =
     (if col \<in> set cols \<and> column_values rows col \<noteq> []
      then Some (stats_of_values (column_values rows col))
      else map_of stats col)"
proof (induction cols arbitrary: stats)
  case Nil
  show ?case by simp
next
  case (Cons c cols)
  show ?case
    unfolding stats_loop_Cons by (auto simp: Cons.IH map_of_obj_set)
qed

lemma numeric_column_values:
  assumes "col \<in> set (numericColumns rows)"
  shows "column_values rows col = map (\<lambda>r. Number (get r col)) rows"
proof -
  have "\<forall>r\<in>set rows. \<not> isNaN (Number (get r col))"
  proof
    fix r
    assume "r \<in> set rows"
    with assms have "get r col = JStr [] \<or> \<not> isNaN (Number (get r col))"
      by (auto simp: numericColumns_iff split: list.splits)
    then show "\<not> isNaN (Number (get r col))"
      by (auto simp: StringToNumber_empty isNaN_def)
  qed
  then show ?thesis
    unfolding column_values_def by (simp add: filter_id_conv)
qed

lemma summarize_table_Cons:
  "summarize_table (r # rows) =
     Rows_columns_stats (Suc (length rows)) (numericColumns (r # rows))
       (stats_loop (r # rows) (numericColumns (r # rows)) [])"
  by (simp add: summarize_table_def Let_def)

lemma map_of_summary_loop:
  assumes "distinct (map fst store)"
  shows "map_of (summary_loop store summary) name =
     (case map_of store name of
        None \<Rightarrow> map_of summary name
      | Some rows \<Rightarrow> Some (summarize_table rows))"
  using assms
proof (induction store arbitrary: summary)
  case Nil
  show ?case by simp
next
  case (Cons entry store)
  obtain key rows where entry: "entry = (key, rows)" by (cases entry)
  from Cons.prems have d: "distinct (map fst store)" and k: "key \<notin> fst ` set store"
    by (simp_all add: entry)
  from k have none: "map_of store key = None" by (simp add: map_of_eq_None_iff)
  show ?case
    unfolding entry using none
    by (auto simp: Cons.IH[OF d] map_of_obj_set split: option.splits)
qed

lemma stats_entry:
  assumes "summarize_table rows = Rows_columns_stats n cols stats"
    and "map_of stats col = Some st"
  shows "column_values rows col \<noteq> [] \<and> st = stats_of_values (column_values rows col)"
proof -
  from assms(1) obtain r rs where rows: "rows = r # rs"
    by (cases rows) (auto simp: summarize_table_def)
  with assms(1) have "stats = stats_loop rows (numericColumns rows) []"
    by (auto simp: summarize_table_Cons)
  with assms(2) show ?thesis
    by (auto simp: map_of_stats_loop split: if_splits)
qed

lemmas summary_eval =
  getDatasetsSummary_def summarize_table_Cons numericColumns_Cons Object_keys_def
  get_Cons lit_eq_iff isNaN_def stats_loop_Cons column_values_def
  stats_of_values_def Let_def Math_min_def Math_max_def StringToNumber_empty

text \<open>
  C5. For every store and every name of the store whose table has no rows, the entry
  of that name in the summary is the object \<open>{rows: 0}\<close> and nothing else.
\<close>

theorem summary_of_empty_table:
  assumes "distinct (map fst store)" and "(name, []) \<in> set store"
  shows "map_of (getDatasetsSummary store) name = Some (Rows_only 0)"
proof -
  from assms have "map_of store name = Some []" by simp
  then show ?thesis
    unfolding getDatasetsSummary_def
    by (simp add: map_of_summary_loop[OF assms(1)] summarize_table_def)
qed

theorem summary_of_empty_table_witness:
  "map_of (getDatasetsSummary [(lit ''conditions'', []),
      (lit ''factors'', [[(lit ''Val'', JStr (lit ''1''))]])]) (lit ''conditions'') =
     Some (Rows_only 0)"
  by (rule summary_of_empty_table) (simp_all add: lit_eq_iff)

section \<open>Statistics of a column\<close>

lemma Math_min_fold:
  "foldl (\<lambda>lowest v. if lowest = NaN \<or> v = NaN then NaN
                      else if js_lt v lowest then v else lowest) (Fin a) (map Fin qs) =
     Fin (fold min qs a)"
proof (induction qs arbitrary: a)
  case Nil
  show ?case by simp
next
  case (Cons q qs)
  have "min q a = (if q < a then q else a)" by (simp add: min_def)
  then show ?case by (simp add: Cons.IH)
qed

lemma Math_max_fold:
  "foldl (\<lambda>highest v. if highest = NaN \<or> v = NaN then NaN
                       else if js_lt highest v then v else highest) (Fin a) (map Fin qs) =
     Fin (fold max qs a)"
proof (induction qs arbitrary: a)
  case Nil
  show ?case by simp
next
  case (Cons q qs)
  have "max q a = (if a < q then q else a)" by (simp add: max_def)
  then show ?case by (simp add: Cons.IH)
qed

lemma Math_min_Fin:
  assumes "qs \<noteq> []"
  shows "Math_min (map Fin qs) = Fin (Min (set qs))"
proof -
  obtain q qs' where "qs = q # qs'" using assms by (cases qs) auto
  then show ?thesis
    using Min.set_eq_fold[of q qs'] by (simp add: Math_min_def Math_min_fold)
qed

lemma Math_max_Fin:
  assumes "qs \<noteq> []"
  shows "Math_max (map Fin qs) = Fin (Max (set qs))"
proof -
  obtain q qs' where "qs = q # qs'" using assms by (cases qs) auto
  then show ?thesis
    using Max.set_eq_fold[of q qs'] by (simp add: Math_max_def Math_max_fold)
qed

lemma sum_list_lower:
  fixes qs :: "rat list"
  assumes "\<forall>q\<in>set qs. m \<le> q"
  shows "of_nat (length qs) * m \<le> sum_list qs"
  using assms by (induction qs) (auto simp: algebra_simps)

lemma sum_list_upper:
  fixes qs :: "rat list"
  assumes "\<forall>q\<in>set qs. q \<le> m"
  shows "sum_list qs \<le> of_nat (length qs) * m"
  using assms by (induction qs) (auto simp: algebra_simps)

lemma js_le_trans: "js_le a b \<Longrightarrow> js_le b c \<Longrightarrow> js_le a c"
  by (cases a; cases b; cases c) auto

lemma js_lt_imp_le: "js_lt a b \<Longrightarrow> js_le a b"
  by (cases a; cases b) auto

lemma js_not_lt_imp_le: "a \<noteq> NaN \<Longrightarrow> b \<noteq> NaN \<Longrightarrow> \<not> js_lt a b \<Longrightarrow> js_le b a"
  by (cases a; cases b) auto

lemma js_le_refl: "a \<noteq> NaN \<Longrightarrow> js_le a a"
  by (cases a) auto

lemma Math_min_scan:
  assumes "a \<noteq> NaN" and "NaN \<notin> set vs"
  shows "foldl (\<lambda>lowest v. if lowest = NaN \<or> v = NaN then NaN
                      else if js_lt v lowest then v else lowest) a vs \<noteq> NaN \<and>
    js_le (foldl (\<lambda>lowest v. if lowest = NaN \<or> v = NaN then NaN
                      else if js_lt v lowest then v else lowest) a vs) a \<and>
    (\<forall>v\<in>set vs. js_le (foldl (\<lambda>lowest v. if lowest = NaN \<or> v = NaN then NaN
                      else if js_lt v lowest then v else lowest) a vs) v)"
  using assms
proof (induction vs arbitrary: a)
  case Nil
  then show ?case by (simp add: js_le_refl)
next
  case (Cons x vs)
  define a' where "a' = (if js_lt x a then x else a)"
  have x: "x \<noteq> NaN" and vs: "NaN \<notin> set vs" using Cons.prems by auto
  have a': "a' \<noteq> NaN" using x Cons.prems(1) by (simp add: a'_def)
  have le_a: "js_le a' a"
    using Cons.prems(1) by (simp add: a'_def js_lt_imp_le js_le_refl)
  have le_x: "js_le a' x"
    using x Cons.prems(1) by (simp add: a'_def js_le_refl js_not_lt_imp_le)
  have step: "foldl (\<lambda>lowest v. if lowest = NaN \<or> v = NaN then NaN
                      else if js_lt v lowest then v else lowest) a (x # vs) =
      foldl (\<lambda>lowest v. if lowest = NaN \<or> v = NaN then NaN
                      else if js_lt v lowest then v else lowest) a' vs"
    using x Cons.prems(1) by (simp add: a'_def)
  from Cons.IH[OF a' vs] le_a le_x show ?case
    unfolding step by (auto intro: js_le_trans)
qed

lemma Math_max_scan:
  assumes "a \<noteq> NaN" and "NaN \<notin> set vs"
  shows "foldl (\<lambda>highest v. if highest = NaN \<or> v = NaN then NaN
                       else if js_lt highest v then v else highest) a vs \<noteq> NaN \<and>
    js_le a (foldl (\<lambda>highest v. if highest = NaN \<or> v = NaN then NaN
                       else if js_lt highest v then v else highest) a vs) \<and>
    (\<forall>v\<in>set vs. js_le v (foldl (\<lambda>highest v. if highest = NaN \<or> v = NaN then NaN
                       else if js_lt highest v then v else highest) a vs))"
  using assms
proof (induction vs arbitrary: a)
  case Nil
  then show ?case by (simp add: js_le_refl)
next
  case (Cons x vs)
  define a' where "a' = (if js_lt a x then x else a)"
  have x: "x \<noteq> NaN" and vs: "NaN \<notin> set vs" using Cons.prems by auto
  have a': "a' \<noteq> NaN" using x Cons.prems(1) by (simp add: a'_def)
  have le_a: "js_le a a'"
    using Cons.prems(1) by (simp add: a'_def js_lt_imp_le js_le_refl)
  have le_x: "js_le x a'"
    using x Cons.prems(1) by (simp add: a'_def js_le_refl js_not_lt_imp_le)
  have step: "foldl (\<lambda>highest v. if highest = NaN \<or> v = NaN then NaN
                       else if js_lt highest v then v else highest) a (x # vs) =
      foldl (\<lambda>highest v. if highest = NaN \<or> v = NaN then NaN
                       else if js_lt highest v then v else highest) a' vs"
    using x Cons.prems(1) by (simp add: a'_def)
  from Cons.IH[OF a' vs] le_a le_x show ?case
    unfolding step by (auto intro: js_le_trans)
qed

lemma Math_min_le: "NaN \<notin> set vs \<Longrightarrow> v \<in> set vs \<Longrightarrow> js_le (Math_min vs) v"
  using Math_min_scan[of PosInf vs] by (simp add: Math_min_def)

lemma Math_max_ge: "NaN \<notin> set vs \<Longrightarrow> v \<in> set vs \<Longrightarrow> js_le v (Math_max vs)"
  using Math_max_scan[of NegInf vs] by (simp add: Math_max_def)

lemma js_add_double: "js_add a b = Fin q \<Longrightarrow> to_double q = Fin q"
  by (cases a; cases b) (auto dest: to_double_idem)

lemma sum_double: "foldl js_add (Fin 0) vs = Fin q \<Longrightarrow> to_double q = Fin q"
proof (induction vs arbitrary: q rule: rev_induct)
  case Nil
  then show ?case by (auto simp: to_double_0)
next
  case (snoc x xs)
  then show ?case by (auto dest: js_add_double)
qed

lemma sum_add_zero:
  "js_add (foldl js_add (Fin 0) vs) (Fin 0) = foldl js_add (Fin 0) vs"
proof (cases "foldl js_add (Fin 0) vs")
  case (Fin q)
  then have "to_double q = Fin q" by (rule sum_double)
  with Fin show ?thesis by simp
qed simp_all

lemma sum_without_zero:
  assumes "i < length vs" and "vs ! i = Fin 0"
  shows "foldl js_add (Fin 0) vs = foldl js_add (Fin 0) (take i vs @ drop (Suc i) vs)"
proof -
  have "vs = take i vs @ Fin 0 # drop (Suc i) vs"
    using assms by (metis id_take_nth_drop)
  then have "foldl js_add (Fin 0) vs =
      foldl js_add (js_add (foldl js_add (Fin 0) (take i vs)) (Fin 0)) (drop (Suc i) vs)"
    by (metis foldl_Cons foldl_append)
  also have "js_add (foldl js_add (Fin 0) (take i vs)) (Fin 0) = foldl js_add (Fin 0) (take i vs)"
    by (rule sum_add_zero)
  finally show ?thesis by simp
qed

text \<open>
  C1. The statistics of a column are meant to leave blank cells out, so that the table
  \<open>[{Val:"1"},{Val:""},{Val:"3"}]\<close> has the statistics \<open>{count:2, mean:2, min:1, max:3}\<close>
  for \<open>Val\<close>. The code turns the blank cell into the number 0, which its test for \<open>NaN\<close>
  keeps: the statistics it gives are \<open>{count:3, mean:1.3333333333333333, min:0, max:3}\<close>.
\<close>

theorem blank_cell_counted_as_zero:
  "getDatasetsSummary
     [(lit ''t'', [[(lit ''Val'', JStr (lit ''1''))], [(lit ''Val'', JStr [])],
                   [(lit ''Val'', JStr (lit ''3''))]])] =
   [(lit ''t'', Rows_columns_stats 3 [lit ''Val'']
      [(lit ''Val'', \<lparr>count = 3, mean = Fin (6004799503160661 / 4503599627370496),
          min_v = Fin 0, max_v = Fin 3\<rparr>)])]"
  by (simp add: summary_eval Number_lit_1 Number_lit_3 to_double_1 to_double_4 to_double_4_3
      del: stats_loop.simps(2))

text \<open>
  C2. A numeric column whose cells are all blank is meant to have no entry in \<open>stats\<close>.
  In the code every blank cell is the value 0, the list of values is never empty, and
  the column gets the entry \<open>{count, mean:0, min:0, max:0}\<close>.
\<close>

theorem blank_column_keeps_stats:
  "getDatasetsSummary
     [(lit ''t'', [[(lit ''Val'', JStr [])], [(lit ''Val'', JStr [])]])] =
   [(lit ''t'', Rows_columns_stats 2 [lit ''Val'']
      [(lit ''Val'', \<lparr>count = 2, mean = Fin 0, min_v = Fin 0, max_v = Fin 0\<rparr>)])]"
  by (simp add: summary_eval to_double_0 del: stats_loop.simps(2))

text \<open>
  C10. A cell made of white space only is the number 0 for \<open>Number\<close>. The column of
  such a cell is numeric exactly when it is a column of the first row and the cells of
  the other rows allow it. Then the cell counts in the statistics of the column as the
  value 0: \<open>count\<close> is the number of rows, \<open>mean\<close> is the sum of the values of all rows,
  to which the cell adds nothing, divided by the number of rows, and \<open>min\<close> and \<open>max\<close>
  are the extrema of the values of all rows, so that \<open>min \<le> 0 \<le> max\<close>.
\<close>

theorem whitespace_cell_is_zero:
  assumes "s \<noteq> []" and "list_all is_ws s" and "i < length rows"
    and "get (rows ! i) col = JStr s"
  shows "Number (JStr s) = Fin 0 \<and>
    (col \<in> set (numericColumns rows) \<longleftrightarrow>
       col \<in> set (Object_keys (rows ! 0)) \<and>
       (\<forall>j<length rows. j \<noteq> i \<longrightarrow>
          get (rows ! j) col = JStr [] \<or> \<not> isNaN (Number (get (rows ! j) col)))) \<and>
    (col \<in> set (numericColumns rows) \<longrightarrow>
       summarize_table rows =
         Rows_columns_stats (length rows) (numericColumns rows)
           (stats_loop rows (numericColumns rows) []) \<and>
       map_of (stats_loop rows (numericColumns rows) []) col =
         Some \<lparr>count = length rows,
               mean = js_div_length
                 (foldl js_add (Fin 0) (map (\<lambda>r. Number (get r col)) rows)) (length rows),
               min_v = Math_min (map (\<lambda>r. Number (get r col)) rows),
               max_v = Math_max (map (\<lambda>r. Number (get r col)) rows)\<rparr> \<and>
       map (\<lambda>r. Number (get r col)) rows ! i = Fin 0 \<and>
       foldl js_add (Fin 0) (map (\<lambda>r. Number (get r col)) rows) =
         foldl js_add (Fin 0)
           (take i (map (\<lambda>r. Number (get r col)) rows) @
            drop (Suc i) (map (\<lambda>r. Number (get r col)) rows)) \<and>
       js_le (Math_min (map (\<lambda>r. Number (get r col)) rows)) (Fin 0) \<and>
       js_le (Fin 0) (Math_max (map (\<lambda>r. Number (get r col)) rows)))"
proof (intro conjI impI)
  show zero: "Number (JStr s) = Fin 0" using assms(2) by (rule Number_blank)
  obtain r0 rest where rows: "rows = r0 # rest" using assms(3) by (cases rows) auto
  have ok: "\<not> isNaN (Number (get (rows ! i) col))"
    unfolding assms(4) zero by (simp add: isNaN_def)
  show "col \<in> set (numericColumns rows) \<longleftrightarrow>
       col \<in> set (Object_keys (rows ! 0)) \<and>
       (\<forall>j<length rows. j \<noteq> i \<longrightarrow>
          get (rows ! j) col = JStr [] \<or> \<not> isNaN (Number (get (rows ! j) col)))"
  proof -
    have "(\<forall>r\<in>set rows. get r col = JStr [] \<or> \<not> isNaN (Number (get r col))) \<longleftrightarrow>
        (\<forall>j<length rows. get (rows ! j) col = JStr [] \<or> \<not> isNaN (Number (get (rows ! j) col)))"
      by (simp add: all_set_conv_all_nth)
    also have "\<dots> \<longleftrightarrow> (\<forall>j<length rows. j \<noteq> i \<longrightarrow>
          get (rows ! j) col = JStr [] \<or> \<not> isNaN (Number (get (rows ! j) col)))"
      using ok by metis
    finally show ?thesis
      unfolding numericColumns_iff[of col rows] by (simp add: rows)
  qed
  define vs where "vs = map (\<lambda>r. Number (get r col)) rows"
  have len: "length vs = length rows" by (simp add: vs_def)
  show at_i: "map (\<lambda>r. Number (get r col)) rows ! i = Fin 0"
    using assms(3) by (simp only: nth_map assms(4) zero)
  then have vi: "vs ! i = Fin 0" by (simp add: vs_def)
  then have mem: "Fin 0 \<in> set vs"
    using assms(3) len by (metis nth_mem)
  show "foldl js_add (Fin 0) (map (\<lambda>r. Number (get r col)) rows) =
         foldl js_add (Fin 0)
           (take i (map (\<lambda>r. Number (get r col)) rows) @
            drop (Suc i) (map (\<lambda>r. Number (get r col)) rows))"
    using assms(3) vi len unfolding vs_def[symmetric] by (intro sum_without_zero) simp_all
  assume num: "col \<in> set (numericColumns rows)"
  show "summarize_table rows =
         Rows_columns_stats (length rows) (numericColumns rows)
           (stats_loop rows (numericColumns rows) [])"
    unfolding rows by (simp add: summarize_table_Cons)
  have cv: "column_values rows col = vs"
    unfolding vs_def using num by (rule numeric_column_values)
  then have ne: "column_values rows col \<noteq> []" by (simp add: rows vs_def)
  have "stats_of_values vs =
      \<lparr>count = length rows,
       mean = js_div_length (foldl js_add (Fin 0) vs) (length rows),
       min_v = Math_min vs, max_v = Math_max vs\<rparr>"
    by (simp add: stats_of_values_def len)
  with num ne show "map_of (stats_loop rows (numericColumns rows) []) col =
         Some \<lparr>count = length rows,
               mean = js_div_length
                 (foldl js_add (Fin 0) (map (\<lambda>r. Number (get r col)) rows)) (length rows),
               min_v = Math_min (map (\<lambda>r. Number (get r col)) rows),
               max_v = Math_max (map (\<lambda>r. Number (get r col)) rows)\<rparr>"
    by (simp add: map_of_stats_loop cv vs_def)
  have "NaN \<notin> set (column_values rows col)" by (auto simp: column_values_def isNaN_def)
  then have nonan: "NaN \<notin> set vs" by (simp add: cv)
  show "js_le (Math_min (map (\<lambda>r. Number (get r col)) rows)) (Fin 0)"
    unfolding vs_def[symmetric] using nonan mem by (rule Math_min_le)
  show "js_le (Fin 0) (Math_max (map (\<lambda>r. Number (get r col)) rows))"
    unfolding vs_def[symmetric] using nonan mem by (rule Math_max_ge)
qed

theorem whitespace_cell_is_zero_witness:
  "Number (JStr [32]) = Fin 0 \<and>
   lit ''Val'' \<in> set (numericColumns [[(lit ''Val'', JStr [32])], [(lit ''Val'', JStr (lit ''3''))]]) \<and>
   map_of (stats_loop [[(lit ''Val'', JStr [32])], [(lit ''Val'', JStr (lit ''3''))]]
      (numericColumns [[(lit ''Val'', JStr [32])], [(lit ''Val'', JStr (lit ''3''))]]) [])
      (lit ''Val'') =
     Some \<lparr>count = 2, mean = Fin (3 / 2), min_v = Fin 0, max_v = Fin 3\<rparr>"
proof -
  have h: "[32] \<noteq> ([]::jsstr)" "list_all is_ws [32]"
    "0 < length [[(lit ''Val'', JStr [32])], [(lit ''Val'', JStr (lit ''3''))]]"
    "get ([[(lit ''Val'', JStr [32])], [(lit ''Val'', JStr (lit ''3''))]] ! 0) (lit ''Val'') =
      JStr [32]"
    by (simp_all add: is_ws_def get_Cons)
  have sp: "StringToNumber [32] = Fin 0"
    using Number_blank[OF h(2)] by simp
  from whitespace_cell_is_zero[OF h] show ?thesis
    by (simp add: Object_keys_def get_Cons Number_lit_3 isNaN_def All_less_Suc sp
        Math_min_def Math_max_def to_double_3 to_double_3_2)
qed

text \<open>
  C8. For every table and every column with statistics, when the values of the column
  are finite and their sum is computed without rounding, the statistics satisfy
  \<open>min \<le> mean \<le> max\<close>.
\<close>

theorem mean_between_min_and_max_if_sum_exact:
  assumes "summarize_table rows = Rows_columns_stats n cols stats"
    and "map_of stats col = Some st"
    and "column_values rows col = map Fin qs"
    and "foldl js_add (Fin 0) (map Fin qs) = Fin (sum_list qs)"
  shows "js_le (min_v st) (mean st) \<and> js_le (mean st) (max_v st)"
proof -
  from stats_entry[OF assms(1,2)] assms(3)
  have ne: "qs \<noteq> []" and st: "st = stats_of_values (map Fin qs)" by auto
  define k where "k = length qs"
  have k: "0 < k" using ne by (simp add: k_def)
  define avg where "avg = sum_list qs / of_nat k"
  have mean: "mean st = to_double avg"
    using k by (simp add: st stats_of_values_def assms(4) avg_def k_def)
  have mn: "min_v st = Fin (Min (set qs))"
    using ne by (simp add: st stats_of_values_def Math_min_Fin)
  have mx: "max_v st = Fin (Max (set qs))"
    using ne by (simp add: st stats_of_values_def Math_max_Fin)
  have dbl: "to_double q = Fin q" if "q \<in> set qs" for q
  proof -
    from that have "Fin q \<in> set (column_values rows col)" by (simp add: assms(3))
    then obtain r where "Number (get r col) = Fin q"
      by (auto simp: column_values_def)
    then show ?thesis by (rule Number_double)
  qed
  have "Min (set qs) \<in> set qs" "Max (set qs) \<in> set qs"
    using ne by simp_all
  then have dmin: "to_double (Min (set qs)) = Fin (Min (set qs))"
    and dmax: "to_double (Max (set qs)) = Fin (Max (set qs))"
    by (simp_all add: dbl)
  have "of_nat k * Min (set qs) \<le> sum_list qs"
    unfolding k_def by (rule sum_list_lower) simp
  then have lo: "Min (set qs) \<le> avg"
    using k by (simp add: avg_def pos_le_divide_eq mult.commute)
  have "sum_list qs \<le> of_nat k * Max (set qs)"
    unfolding k_def by (rule sum_list_upper) simp
  then have hi: "avg \<le> Max (set qs)"
    using k by (simp add: avg_def pos_divide_le_eq mult.commute)
  from to_double_mono[OF lo] to_double_mono[OF hi]
  show ?thesis by (simp add: mean mn mx dmin dmax)
qed

theorem mean_between_min_and_max_if_sum_exact_witness:
  "js_le (min_v \<lparr>count = 3, mean = Fin (6004799503160661 / 4503599627370496),
                 min_v = Fin 0, max_v = Fin 3\<rparr>)
         (mean \<lparr>count = 3, mean = Fin (6004799503160661 / 4503599627370496),
                 min_v = Fin 0, max_v = Fin 3\<rparr>) \<and>
   js_le (mean \<lparr>count = 3, mean = Fin (6004799503160661 / 4503599627370496),
                 min_v = Fin 0, max_v = Fin 3\<rparr>)
         (max_v \<lparr>count = 3, mean = Fin (6004799503160661 / 4503599627370496),
                 min_v = Fin 0, max_v = Fin 3\<rparr>)"
proof (rule mean_between_min_and_max_if_sum_exact)
  show "summarize_table [[(lit ''Val'', JStr (lit ''1''))], [(lit ''Val'', JStr [])],
                         [(lit ''Val'', JStr (lit ''3''))]] =
      Rows_columns_stats 3 [lit ''Val'']
        [(lit ''Val'', \<lparr>count = 3, mean = Fin (6004799503160661 / 4503599627370496),
            min_v = Fin 0, max_v = Fin 3\<rparr>)]"
    by (simp add: summary_eval Number_lit_1 Number_lit_3 to_double_1 to_double_4 to_double_4_3
        del: stats_loop.simps(2))
  show "map_of [(lit ''Val'', \<lparr>count = 3, mean = Fin (6004799503160661 / 4503599627370496),
            min_v = Fin 0, max_v = Fin 3\<rparr>)] (lit ''Val'') =
      Some \<lparr>count = 3, mean = Fin (6004799503160661 / 4503599627370496),
            min_v = Fin 0, max_v = Fin 3\<rparr>"
    by simp
  show "column_values [[(lit ''Val'', JStr (lit ''1''))], [(lit ''Val'', JStr [])],
                       [(lit ''Val'', JStr (lit ''3''))]] (lit ''Val'') = map Fin [1, 0, 3]"
    by (simp add: summary_eval Number_lit_1 Number_lit_3)
  show "foldl js_add (Fin 0) (map Fin [1, 0, 3]) = Fin (sum_list [1, 0, 3])"
    by (simp add: to_double_1 to_double_4)
qed

text \<open>
  Without that condition the inequality fails: each sum and the division round to the
  nearest double, and the mean of three cells \<open>0.1\<close> is \<open>0.10000000000000002\<close>, above
  their maximum.
\<close>

theorem mean_above_max_counterexample:
  "summarize_table [[(lit ''Val'', JStr (lit ''0.1''))], [(lit ''Val'', JStr (lit ''0.1''))],
                    [(lit ''Val'', JStr (lit ''0.1''))]] =
     Rows_columns_stats 3 [lit ''Val'']
       [(lit ''Val'',
         \<lparr>count = 3, mean = Fin (7205759403792795 / 72057594037927936),
          min_v = Fin (3602879701896397 / 36028797018963968),
          max_v = Fin (3602879701896397 / 36028797018963968)\<rparr>)] \<and>
   \<not> js_le (Fin (7205759403792795 / 72057594037927936))
           (Fin (3602879701896397 / 36028797018963968))"
  by (simp add: summary_eval Number_lit_tenth to_double_tenth_again to_double_two_tenths
      to_double_three_tenths to_double_mean_tenths del: stats_loop.simps(2))

end
